theory Spec2Isabelle
  imports Main
begin

section \<open>The archive cache of src/lib/archiveCache.js\<close>

text \<open>
  The module keeps two pieces of module-level state: \<^verbatim>\<open>_archiveStore\<close>, a JavaScript
  \<^verbatim>\<open>Map\<close> from keys to entry objects, and \<^verbatim>\<open>_archiveOrder\<close>, an array of keys
  (front = oldest). Every function of the module is embedded as a function on a record of
  these two fields. \<^verbatim>\<open>Date.now()\<close> is an explicit argument \<open>now\<close> (milliseconds, an
  integer). The two constants of the module are arguments \<open>cap\<close> and \<open>ttl\<close> of the embedded
  functions, so that statements about other capacities can be made; the values the module
  fixes are \<open>ARCHIVE_CACHE_MAX_SIZE\<close> and \<open>ARCHIVE_CACHE_TTL\<close> below. The module has no way
  to change either of them.
\<close>

subsection \<open>Values and objects\<close>

text \<open>
  A property value is either an integer number (what \<^verbatim>\<open>Date.now()\<close> returns: a count
  of milliseconds, far below \<open>2^53\<close>, so that subtracting two of them is exact) or some other
  JavaScript value (a buffer, a string, an array of file names, \<^verbatim>\<open>null\<close>, a number that
  is not such an integer, ...). An object is the finite map of its own enumerable properties.
\<close>

datatype 'a jsval = JNum int | JOther 'a

type_synonym 'a obj = "string \<rightharpoonup> 'a jsval"

text \<open>
  The cache looks into one property value only: \<^verbatim>\<open>item.timestamp\<close>, in the comparison
  \<^verbatim>\<open>Date.now() - item.timestamp > ARCHIVE_CACHE_TTL\<close>. On a value that is not an integer
  number JavaScript first coerces the value to a number (the string \<^verbatim>\<open>'0'\<close> and
  \<^verbatim>\<open>null\<close> to 0, \<^verbatim>\<open>true\<close> to 1, \<^verbatim>\<open>'abc'\<close> and most objects to
  \<^verbatim>\<open>NaN\<close>) and subtracts in floating point. What the comparison yields on such a
  value \<open>v\<close> is not fixed by this theory: it is an argument \<open>older v now ttl\<close> of the embedded
  functions, so that every statement holds for whatever the language does. Values on which
  the subtraction throws (a \<^verbatim>\<open>BigInt\<close>, a \<^verbatim>\<open>Symbol\<close>) are not values of \<open>'a\<close>.
\<close>

type_synonym 'a coercion = "'a \<Rightarrow> int \<Rightarrow> int \<Rightarrow> bool"

record 'a cache =
  archiveStore :: "string \<rightharpoonup> 'a obj"
  archiveOrder :: "string list"

definition ARCHIVE_CACHE_MAX_SIZE :: nat where
  "ARCHIVE_CACHE_MAX_SIZE = 30"

definition ARCHIVE_CACHE_TTL :: int where
  "ARCHIVE_CACHE_TTL = 30 * 60 * 1000"

text \<open>The state when the module has just been loaded: \<^verbatim>\<open>new Map()\<close> and \<^verbatim>\<open>[]\<close>.\<close>

definition initial_cache :: "'a cache" where
  "initial_cache = \<lparr>archiveStore = Map.empty, archiveOrder = []\<rparr>"

subsection \<open>Array primitives\<close>

text \<open>\<^verbatim>\<open>arr.indexOf(k)\<close>: the first index holding \<open>k\<close>, or \<open>-1\<close>.\<close>

fun indexOf :: "string list \<Rightarrow> string \<Rightarrow> int" where
  "indexOf [] k = - 1"
| "indexOf (x # xs) k =
     (if x = k then 0
      else (let i = indexOf xs k in if i > - 1 then i + 1 else - 1))"

text \<open>\<^verbatim>\<open>arr.splice(idx, 1)\<close> for an index \<open>idx \<ge> 0\<close>: drops the element at \<open>idx\<close>.\<close>

definition splice1 :: "nat \<Rightarrow> string list \<Rightarrow> string list" where
  "splice1 idx xs = take idx xs @ drop (Suc idx) xs"

text \<open>
  The idiom \<^verbatim>\<open>const idx = arr.indexOf(key); if (idx > -1) arr.splice(idx, 1);\<close>
  used by \<^verbatim>\<open>setArchive\<close> and \<^verbatim>\<open>deleteArchive\<close>.
\<close>

definition removeFromOrder :: "string \<Rightarrow> string list \<Rightarrow> string list" where
  "removeFromOrder key order =
     (let idx = indexOf order key in
      if idx > - 1 then splice1 (nat idx) order else order)"

subsection \<open>deleteArchive\<close>

definition deleteArchive :: "string \<Rightarrow> 'a cache \<Rightarrow> 'a cache" where
  "deleteArchive key st =
     st\<lparr>archiveStore := (archiveStore st)(key := None),
        archiveOrder := removeFromOrder key (archiveOrder st)\<rparr>"

subsection \<open>getArchive\<close>

text \<open>
  \<^verbatim>\<open>Date.now() - item.timestamp > ARCHIVE_CACHE_TTL\<close>. A missing property reads as
  \<^verbatim>\<open>undefined\<close>, the difference is \<^verbatim>\<open>NaN\<close> and the comparison is false; an integer
  number is subtracted exactly; on any other value the coercion \<open>older\<close> decides.
\<close>

definition expired :: "'a coercion \<Rightarrow> int \<Rightarrow> int \<Rightarrow> 'a obj \<Rightarrow> bool" where
  "expired older ttl now item =
     (case item ''timestamp'' of
        None \<Rightarrow> False
      | Some (JNum t) \<Rightarrow> now - t > ttl
      | Some (JOther v) \<Rightarrow> older v now ttl)"

text \<open>
  The result is the returned item (\<open>None\<close> for \<^verbatim>\<open>null\<close>) and the state after the call.
  Stored items are objects, hence truthy, so \<^verbatim>\<open>!item\<close> holds exactly when the key is
  not in the map.
\<close>

definition getArchive ::
  "'a coercion \<Rightarrow> int \<Rightarrow> int \<Rightarrow> string \<Rightarrow> 'a cache \<Rightarrow> 'a obj option \<times> 'a cache" where
  "getArchive older ttl now key st =
     (case archiveStore st key of
        None \<Rightarrow> (None, st)
      | Some item \<Rightarrow>
          if expired older ttl now item then (None, deleteArchive key st)
          else
            (let idx = indexOf (archiveOrder st) key in
             (Some item,
              if idx > - 1
              then st\<lparr>archiveOrder := splice1 (nat idx) (archiveOrder st) @ [key]\<rparr>
              else st)))"

subsection \<open>setArchive\<close>

text \<open>
  The body of the eviction loop: \<^verbatim>\<open>shift()\<close> takes the front key off the array and the
  key is deleted from the map. On an empty array \<^verbatim>\<open>shift()\<close> returns \<^verbatim>\<open>undefined\<close>
  and leaves the array as it is, and deleting \<^verbatim>\<open>undefined\<close> from a map of string keys
  changes nothing.
\<close>

definition evictOldest :: "'a cache \<Rightarrow> 'a cache" where
  "evictOldest st =
     (case archiveOrder st of
        [] \<Rightarrow> st
      | oldestKey # rest \<Rightarrow>
          st\<lparr>archiveStore := (archiveStore st)(oldestKey := None), archiveOrder := rest\<rparr>)"

text \<open>
  \<^verbatim>\<open>while (_archiveOrder.length >= ARCHIVE_CACHE_MAX_SIZE) { ... }\<close>. The loop need not
  end, so it is a partial function: \<open>None\<close> means that it does not return.
\<close>

partial_function (option) evictLoop :: "nat \<Rightarrow> 'a cache \<Rightarrow> 'a cache option" where
  "evictLoop cap st =
     (if length (archiveOrder st) \<ge> cap then evictLoop cap (evictOldest st) else Some st)"

text \<open>\<^verbatim>\<open>{ ...value, timestamp: Date.now() }\<close>: the properties of \<open>value\<close>, then \<open>timestamp\<close>.\<close>

definition stamp :: "int \<Rightarrow> 'a obj \<Rightarrow> 'a obj" where
  "stamp now v = v(''timestamp'' \<mapsto> JNum now)"

definition setArchive :: "nat \<Rightarrow> int \<Rightarrow> string \<Rightarrow> 'a obj \<Rightarrow> 'a cache \<Rightarrow> 'a cache option" where
  "setArchive cap now key v st =
     (let st1 = (if archiveStore st key \<noteq> None
                 then st\<lparr>archiveOrder := removeFromOrder key (archiveOrder st)\<rparr>
                 else st)
      in case evictLoop cap st1 of
           None \<Rightarrow> None
         | Some st2 \<Rightarrow>
             Some (st2\<lparr>archiveStore := (archiveStore st2)(key \<mapsto> stamp now v),
                       archiveOrder := archiveOrder st2 @ [key]\<rparr>))"

subsection \<open>has and stats\<close>

record stats =
  stats_size :: nat
  stats_maxSize :: nat
  stats_keys :: "string list"

definition getArchiveCacheStats :: "nat \<Rightarrow> 'a cache \<Rightarrow> stats" where
  "getArchiveCacheStats cap st =
     \<lparr>stats_size = card (dom (archiveStore st)),
      stats_maxSize = cap,
      stats_keys = archiveOrder st\<rparr>"

definition has :: "string \<Rightarrow> 'a cache \<Rightarrow> bool" where
  "has key st = (archiveStore st key \<noteq> None)"

subsection \<open>The exported interface\<close>

text \<open>
  \<^verbatim>\<open>ARCHIVE_CACHE\<close> offers \<^verbatim>\<open>get\<close>, \<^verbatim>\<open>set\<close>, \<^verbatim>\<open>delete\<close>, \<^verbatim>\<open>has\<close> and
  \<^verbatim>\<open>stats\<close>. A call is a value of \<open>call\<close>; \<open>ARCHIVE_CACHE\<close> gives what the call returns and
  the state it leaves, or \<open>None\<close> when the call does not return.
\<close>

datatype 'a call =
    Get int string
  | Set int string "'a obj"
  | Delete string
  | Has string
  | Stats

datatype 'a reply =
    Item "'a obj option"
  | Void
  | Bool bool
  | StatsReply stats

fun ARCHIVE_CACHE ::
  "'a coercion \<Rightarrow> nat \<Rightarrow> int \<Rightarrow> 'a call \<Rightarrow> 'a cache \<Rightarrow> ('a reply \<times> 'a cache) option" where
  "ARCHIVE_CACHE older cap ttl (Get now key) st =
     (case getArchive older ttl now key st of (r, st') \<Rightarrow> Some (Item r, st'))"
| "ARCHIVE_CACHE older cap ttl (Set now key v) st =
     (case setArchive cap now key v st of None \<Rightarrow> None | Some st' \<Rightarrow> Some (Void, st'))"
| "ARCHIVE_CACHE older cap ttl (Delete key) st = Some (Void, deleteArchive key st)"
| "ARCHIVE_CACHE older cap ttl (Has key) st = Some (Bool (has key st), st)"
| "ARCHIVE_CACHE older cap ttl Stats st = Some (StatsReply (getArchiveCacheStats cap st), st)"

text \<open>A sequence of calls, one after the other; the state after the last one.\<close>

fun run :: "'a coercion \<Rightarrow> nat \<Rightarrow> int \<Rightarrow> 'a call list \<Rightarrow> 'a cache \<Rightarrow> 'a cache option" where
  "run older cap ttl [] st = Some st"
| "run older cap ttl (c # cs) st =
     (case ARCHIVE_CACHE older cap ttl c st of None \<Rightarrow> None | Some (r, st') \<Rightarrow> run older cap ttl cs st')"

subsection \<open>The invariant of the data model\<close>

definition cache_inv :: "nat \<Rightarrow> 'a cache \<Rightarrow> bool" where
  "cache_inv cap st \<longleftrightarrow>
     set (archiveOrder st) = dom (archiveStore st) \<and>
     distinct (archiveOrder st) \<and>
     card (dom (archiveStore st)) = length (archiveOrder st) \<and>
     length (archiveOrder st) \<le> cap"

section \<open>Basic facts\<close>

lemma indexOf_notin: "k \<notin> set xs \<Longrightarrow> indexOf xs k = - 1"
  by (induction xs) auto

lemma indexOf_in: "k \<in> set xs \<Longrightarrow> 0 \<le> indexOf xs k"
  by (induction xs) (auto simp: Let_def)

lemma removeFromOrder_Nil: "removeFromOrder k [] = []"
  by (simp add: removeFromOrder_def)

lemma removeFromOrder_Cons:
  "removeFromOrder k (x # xs) = (if x = k then xs else x # removeFromOrder k xs)"
proof (cases "x = k")
  case True
  then show ?thesis by (simp add: removeFromOrder_def splice1_def)
next
  case False
  show ?thesis
  proof (cases "k \<in> set xs")
    case True
    then have "0 \<le> indexOf xs k" by (rule indexOf_in)
    with False show ?thesis
      by (simp add: removeFromOrder_def splice1_def Let_def nat_add_distrib)
  next
    case notin: False
    with False show ?thesis
      by (simp add: removeFromOrder_def indexOf_notin)
  qed
qed

lemma removeFromOrder_remove1: "removeFromOrder k xs = remove1 k xs"
  by (induction xs) (auto simp: removeFromOrder_Nil removeFromOrder_Cons)

lemma indexOf_gt_iff: "indexOf xs k > - 1 \<longleftrightarrow> k \<in> set xs"
proof (cases "k \<in> set xs")
  case True
  then show ?thesis using indexOf_in[of k xs] by simp
next
  case False
  then show ?thesis by (simp add: indexOf_notin)
qed

lemma splice1_indexOf: "k \<in> set xs \<Longrightarrow> splice1 (nat (indexOf xs k)) xs = remove1 k xs"
  using removeFromOrder_remove1[of k xs] by (simp add: removeFromOrder_def indexOf_gt_iff)

lemma deleteArchive_eq:
  "deleteArchive key st =
     st\<lparr>archiveStore := (archiveStore st)(key := None), archiveOrder := remove1 key (archiveOrder st)\<rparr>"
  by (simp add: deleteArchive_def removeFromOrder_remove1)

lemma getArchive_eq:
  "getArchive older ttl now key st =
     (case archiveStore st key of
        None \<Rightarrow> (None, st)
      | Some item \<Rightarrow>
          if expired older ttl now item then (None, deleteArchive key st)
          else (Some item,
                if key \<in> set (archiveOrder st)
                then st\<lparr>archiveOrder := remove1 key (archiveOrder st) @ [key]\<rparr>
                else st))"
  by (simp add: getArchive_def Let_def indexOf_gt_iff splice1_indexOf split: option.splits)

lemma evictLoop_zero: "evictLoop 0 st = None"
proof -
  have "evictLoop cap st = Some r \<Longrightarrow> cap \<noteq> 0" for cap r
    by (rule evictLoop.raw_induct[where P="\<lambda>cap st r. cap \<noteq> 0"]) (auto split: if_splits)
  then show ?thesis by (cases "evictLoop 0 st") auto
qed

lemma length_evictOldest: "length (archiveOrder (evictOldest st)) = length (archiveOrder st) - 1"
  by (simp add: evictOldest_def split: list.splits)

lemma evictLoop_pos:
  "1 \<le> cap \<Longrightarrow>
   evictLoop cap st = Some ((evictOldest ^^ (Suc (length (archiveOrder st)) - cap)) st)"
proof (induction "Suc (length (archiveOrder st)) - cap" arbitrary: st)
  case 0
  then have "length (archiveOrder st) < cap" by simp
  with 0 show ?case by (subst evictLoop.simps) simp
next
  case (Suc n)
  then have ge: "cap \<le> length (archiveOrder st)" by simp
  have "n = Suc (length (archiveOrder (evictOldest st))) - cap"
    using Suc.hyps(2) Suc.prems ge by (simp add: length_evictOldest)
  from Suc.hyps(1)[OF this Suc.prems]
  have "evictLoop cap (evictOldest st) = Some ((evictOldest ^^ n) (evictOldest st))"
    using \<open>n = _\<close> by simp
  then show ?case
    using ge Suc.hyps(2)[symmetric] by (subst evictLoop.simps) (simp add: funpow_swap1)
qed

lemma length_move_to_end: "k \<in> set xs \<Longrightarrow> Suc (length xs - Suc 0) = length xs"
  by (cases xs) auto

lemma evictLoop_below:
  "length (archiveOrder st) < cap \<Longrightarrow> evictLoop cap st = Some st"
  by (subst evictLoop.simps) simp

lemma evictLoop_full:
  "1 \<le> cap \<Longrightarrow> length (archiveOrder st) = cap \<Longrightarrow> evictLoop cap st = Some (evictOldest st)"
  by (simp add: evictLoop_pos)

lemma cache_inv_iff:
  "cache_inv cap st \<longleftrightarrow>
     set (archiveOrder st) = dom (archiveStore st) \<and> distinct (archiveOrder st) \<and>
     length (archiveOrder st) \<le> cap"
  unfolding cache_inv_def by (metis distinct_card)

lemma cache_inv_initial: "cache_inv cap initial_cache"
  by (simp add: cache_inv_def initial_cache_def)

lemma setArchive_zero: "setArchive 0 now key v st = None"
  by (simp add: setArchive_def evictLoop_zero)

lemma setArchive_present:
  assumes "cache_inv cap st" and "archiveStore st key \<noteq> None"
  shows "setArchive cap now key v st =
           Some (st\<lparr>archiveStore := (archiveStore st)(key \<mapsto> stamp now v),
                    archiveOrder := remove1 key (archiveOrder st) @ [key]\<rparr>)"
proof -
  from assms have "key \<in> set (archiveOrder st)" and "length (archiveOrder st) \<le> cap"
    by (auto simp: cache_inv_iff)
  then have "length (remove1 key (archiveOrder st)) < cap"
    by (simp add: length_remove1) (metis length_pos_if_in_set Suc_pred less_Suc_eq_le not_less)
  then have "evictLoop cap (st\<lparr>archiveOrder := remove1 key (archiveOrder st)\<rparr>)
               = Some (st\<lparr>archiveOrder := remove1 key (archiveOrder st)\<rparr>)"
    by (simp add: evictLoop_below)
  with assms(2) show ?thesis
    by (simp add: setArchive_def removeFromOrder_remove1)
qed

lemma setArchive_room:
  assumes "archiveStore st key = None" and "length (archiveOrder st) < cap"
  shows "setArchive cap now key v st =
           Some (st\<lparr>archiveStore := (archiveStore st)(key \<mapsto> stamp now v),
                    archiveOrder := archiveOrder st @ [key]\<rparr>)"
  using assms by (simp add: setArchive_def evictLoop_below)

lemma setArchive_full:
  assumes "archiveStore st key = None" and "1 \<le> cap" and "length (archiveOrder st) = cap"
  shows "setArchive cap now key v st =
           Some (st\<lparr>archiveStore := (archiveStore st)(hd (archiveOrder st) := None, key \<mapsto> stamp now v),
                    archiveOrder := tl (archiveOrder st) @ [key]\<rparr>)"
proof -
  from assms(2,3) obtain k ks where "archiveOrder st = k # ks"
    by (cases "archiveOrder st") auto
  with assms show ?thesis
    by (simp add: setArchive_def evictLoop_full evictOldest_def)
qed

lemma cache_inv_setArchive:
  assumes "cache_inv cap st" and "setArchive cap now key v st = Some st'"
  shows "cache_inv cap st'"
proof -
  from assms(2) have cap: "1 \<le> cap"
    by (cases cap) (simp_all add: setArchive_zero)
  from assms(1) have inv: "set (archiveOrder st) = dom (archiveStore st)"
    "distinct (archiveOrder st)" "length (archiveOrder st) \<le> cap"
    by (simp_all add: cache_inv_iff)
  show ?thesis
  proof (cases "archiveStore st key")
    case (Some item)
    then have "key \<in> set (archiveOrder st)" using inv(1) by auto
    moreover from Some assms have
      "st' = st\<lparr>archiveStore := (archiveStore st)(key \<mapsto> stamp now v),
                archiveOrder := remove1 key (archiveOrder st) @ [key]\<rparr>"
      by (simp add: setArchive_present)
    ultimately show ?thesis using inv
      by (auto simp: cache_inv_iff length_remove1 length_move_to_end dest: notin_set_remove1)
  next
    case None
    then have notin: "key \<notin> set (archiveOrder st)" using inv(1) by auto
    show ?thesis
    proof (cases "length (archiveOrder st) < cap")
      case True
      with None assms(2) have
        "st' = st\<lparr>archiveStore := (archiveStore st)(key \<mapsto> stamp now v),
                  archiveOrder := archiveOrder st @ [key]\<rparr>"
        by (simp add: setArchive_room)
      with inv notin True show ?thesis by (auto simp: cache_inv_iff)
    next
      case False
      with inv(3) have full: "length (archiveOrder st) = cap" by simp
      with cap obtain k ks where ord: "archiveOrder st = k # ks"
        by (cases "archiveOrder st") auto
      from None cap full assms(2) have
        "st' = st\<lparr>archiveStore := (archiveStore st)(hd (archiveOrder st) := None, key \<mapsto> stamp now v),
                  archiveOrder := tl (archiveOrder st) @ [key]\<rparr>"
        by (simp add: setArchive_full)
      with inv notin full ord show ?thesis
        by (auto simp: cache_inv_iff)
    qed
  qed
qed

lemma cache_inv_deleteArchive:
  assumes "cache_inv cap st"
  shows "cache_inv cap (deleteArchive key st)"
  using assms
  by (auto simp: cache_inv_iff deleteArchive_eq length_remove1 dest: notin_set_remove1)

lemma cache_inv_getArchive:
  assumes "cache_inv cap st"
  shows "cache_inv cap (snd (getArchive older ttl now key st))"
proof (cases "archiveStore st key")
  case None
  with assms show ?thesis by (simp add: getArchive_eq)
next
  case (Some item)
  show ?thesis
  proof (cases "expired older ttl now item")
    case True
    with Some assms show ?thesis
      by (simp add: getArchive_eq cache_inv_deleteArchive)
  next
    case False
    from Some assms have "key \<in> set (archiveOrder st)" by (auto simp: cache_inv_iff)
    with Some False assms show ?thesis
      by (auto simp: getArchive_eq cache_inv_iff length_remove1 length_move_to_end dest: notin_set_remove1)
  qed
qed

lemma cache_inv_call:
  assumes "cache_inv cap st" and "ARCHIVE_CACHE older cap ttl c st = Some (r, st')"
  shows "cache_inv cap st'"
proof (cases c)
  case (Get now key)
  with assms(2) have "st' = snd (getArchive older ttl now key st)"
    by (auto split: prod.splits)
  with assms(1) show ?thesis by (simp add: cache_inv_getArchive)
next
  case (Set now key v)
  with assms(2) have "setArchive cap now key v st = Some st'"
    by (auto split: option.splits)
  with assms(1) show ?thesis by (rule cache_inv_setArchive)
next
  case (Delete key)
  with assms show ?thesis by (auto simp: cache_inv_deleteArchive)
next
  case (Has key)
  with assms show ?thesis by auto
next
  case Stats
  with assms show ?thesis by auto
qed

lemma cache_inv_run:
  "cache_inv cap st \<Longrightarrow> run older cap ttl cs st = Some st' \<Longrightarrow> cache_inv cap st'"
proof (induction cs arbitrary: st)
  case Nil
  then show ?case by simp
next
  case (Cons c cs)
  from Cons.prems(2) obtain r st1 where
    step: "ARCHIVE_CACHE older cap ttl c st = Some (r, st1)" and rest: "run older cap ttl cs st1 = Some st'"
    by (auto split: option.splits)
  from Cons.prems(1) step have "cache_inv cap st1" by (rule cache_inv_call)
  then show ?case using rest by (rule Cons.IH)
qed

lemma setArchive_returns:
  assumes "1 \<le> cap"
  shows "setArchive cap now key v st \<noteq> None"
  using assms by (simp add: setArchive_def Let_def evictLoop_pos)

lemma call_returns:
  assumes "1 \<le> cap"
  shows "ARCHIVE_CACHE older cap ttl c st \<noteq> None"
  using setArchive_returns[OF assms]
  by (cases c) (auto split: prod.splits option.splits)

lemma run_returns:
  assumes "1 \<le> cap"
  shows "run older cap ttl cs st \<noteq> None"
proof (induction cs arbitrary: st)
  case Nil
  show ?case by simp
next
  case (Cons c cs)
  from call_returns[OF assms, of older ttl c st] obtain r st1 where
    "ARCHIVE_CACHE older cap ttl c st = Some (r, st1)" by auto
  with Cons.IH[of st1] show ?case by simp
qed

lemma evictLoop_length:
  "evictLoop cap st = Some st2 \<Longrightarrow> length (archiveOrder st2) < cap"
  by (rule evictLoop.raw_induct[where P = "\<lambda>cap st st2. length (archiveOrder st2) < cap"])
     (auto split: if_splits)

lemma setArchive_SomeD:
  assumes "setArchive cap now key v st = Some st'"
  shows "\<exists>st2. length (archiveOrder st2) < cap \<and>
           st' = st2\<lparr>archiveStore := (archiveStore st2)(key \<mapsto> stamp now v),
                     archiveOrder := archiveOrder st2 @ [key]\<rparr>"
  using assms
  by (auto simp: setArchive_def Let_def split: option.splits if_splits dest: evictLoop_length)

lemma expired_stamp: "expired older ttl now' (stamp now v) \<longleftrightarrow> ttl < now' - now"
  by (simp add: expired_def stamp_def)

lemma timestamp_stamp: "stamp now v ''timestamp'' = Some (JNum now)"
  by (simp add: stamp_def)

lemma expired_iff:
  "item ''timestamp'' = Some (JNum t) \<Longrightarrow> expired older ttl now item \<longleftrightarrow> ttl < now - t"
  by (simp add: expired_def)

lemma run_append:
  "run older cap ttl (cs @ ds) st =
     (case run older cap ttl cs st of None \<Rightarrow> None | Some st' \<Rightarrow> run older cap ttl ds st')"
  by (induction cs arbitrary: st) (auto split: option.splits)


lemma filter_remove1_other:
  "\<not> P k \<Longrightarrow> filter P (remove1 k xs) = filter P xs"
  by (induction xs) auto

section \<open>Evaluation on concrete inputs\<close>

lemmas cache_eval =
  setArchive_def getArchive_def deleteArchive_def removeFromOrder_def splice1_def
  evictLoop.simps evictOldest_def stamp_def expired_def initial_cache_def
  has_def getArchiveCacheStats_def Let_def

section \<open>The claims\<close>

text \<open>
  C1. Whatever sequence of \<^verbatim>\<open>get\<close>, \<^verbatim>\<open>set\<close>, \<^verbatim>\<open>delete\<close>, \<^verbatim>\<open>has\<close> and
  \<^verbatim>\<open>stats\<close> calls is made on the freshly loaded module, the state after the last completed
  call has exactly the keys of the map in the order array, each once, and the size of the map
  equals the length of the array and is at most the capacity; the keys reported by
  \<^verbatim>\<open>stats()\<close> are exactly those for which \<^verbatim>\<open>has\<close> is true. With a capacity of
  at least one every call of the sequence completes.
\<close>

theorem order_mapping_consistency:
  "(1 \<le> cap \<longrightarrow> run older cap ttl calls initial_cache \<noteq> None) \<and>
   (\<forall>st. run older cap ttl calls initial_cache = Some st \<longrightarrow>
      set (archiveOrder st) = dom (archiveStore st) \<and>
      distinct (archiveOrder st) \<and>
      card (dom (archiveStore st)) = length (archiveOrder st) \<and>
      length (archiveOrder st) \<le> cap \<and>
      stats_size (getArchiveCacheStats cap st) = length (stats_keys (getArchiveCacheStats cap st)) \<and>
      set (stats_keys (getArchiveCacheStats cap st)) = {k. has k st})"
proof (intro conjI allI impI)
  assume "1 \<le> cap"
  then show "run older cap ttl calls initial_cache \<noteq> None" by (rule run_returns)
next
  fix st :: "'a cache"
  assume "run older cap ttl calls initial_cache = Some st"
  with cache_inv_initial have inv: "cache_inv cap st" by (rule cache_inv_run)
  then show "set (archiveOrder st) = dom (archiveStore st)" 
    and "distinct (archiveOrder st)"
    and "card (dom (archiveStore st)) = length (archiveOrder st)" 
    and "length (archiveOrder st) \<le> cap"
    by (simp_all add: cache_inv_def)
  from inv show "stats_size (getArchiveCacheStats cap st) = length (stats_keys (getArchiveCacheStats cap st))"
    by (simp add: cache_inv_def getArchiveCacheStats_def)
  from inv show "set (stats_keys (getArchiveCacheStats cap st)) = {k. has k st}"
    by (auto simp: cache_inv_def getArchiveCacheStats_def has_def)
qed

theorem order_mapping_consistency_witness:
  "1 \<le> ARCHIVE_CACHE_MAX_SIZE \<and>
   run (\<lambda>v n l. False) ARCHIVE_CACHE_MAX_SIZE ARCHIVE_CACHE_TTL
     [Set 0 ''a'' [''buffer'' \<mapsto> JOther ''x''], Set 5 ''b'' Map.empty, Get 7 ''a'',
      Delete ''b'', Has ''a'', Stats] initial_cache
     = Some \<lparr>archiveStore = [''a'' \<mapsto> [''buffer'' \<mapsto> JOther ''x'', ''timestamp'' \<mapsto> JNum 0]],
             archiveOrder = [''a'']\<rparr> \<and>
   set [''a''] = dom [''a'' \<mapsto> [''buffer'' \<mapsto> JOther ''x'', ''timestamp'' \<mapsto> JNum 0]] \<and>
   distinct [''a''] \<and>
   card (dom [''a'' \<mapsto> [''buffer'' \<mapsto> JOther ''x'', ''timestamp'' \<mapsto> JNum (0::int)]]) = length [''a''] \<and>
   length [''a''] \<le> ARCHIVE_CACHE_MAX_SIZE"
proof -
  let ?calls = "[Set 0 ''a'' [''buffer'' \<mapsto> JOther ''x''], Set 5 ''b'' Map.empty, Get 7 ''a'',
      Delete ''b'', Has ''a'', Stats]"
  let ?S = "\<lparr>archiveStore = [''a'' \<mapsto> [''buffer'' \<mapsto> JOther ''x'', ''timestamp'' \<mapsto> JNum 0]],
             archiveOrder = [''a'']\<rparr>"
  have r: "run (\<lambda>v n l. False) ARCHIVE_CACHE_MAX_SIZE ARCHIVE_CACHE_TTL ?calls initial_cache = Some ?S"
    by (simp add: cache_eval ARCHIVE_CACHE_MAX_SIZE_def ARCHIVE_CACHE_TTL_def)
  have c: "1 \<le> ARCHIVE_CACHE_MAX_SIZE" by (simp add: ARCHIVE_CACHE_MAX_SIZE_def)
  from order_mapping_consistency[of ARCHIVE_CACHE_MAX_SIZE "\<lambda>v n l. False" ARCHIVE_CACHE_TTL ?calls] r c
  show ?thesis by simp
qed

text \<open>
  C2. Whenever \<^verbatim>\<open>set(key, value)\<close> returns, the order array is no longer than the capacity,
  \<open>key\<close> is its last (most recently used) element and is in the map, and the stored entry
  carries the time of the call as its timestamp, whatever was stored under \<open>key\<close> before. A
  \<^verbatim>\<open>get\<close> of the key made no later than \<open>ttl\<close> after that call returns this new entry,
  however long ago an overwritten entry had been inserted. With a capacity of at least one
  \<^verbatim>\<open>set\<close> always returns.
\<close>

theorem setArchive_guarantee:
  "(1 \<le> cap \<longrightarrow> setArchive cap now key v st \<noteq> None) \<and>
   (\<forall>st'. setArchive cap now key v st = Some st' \<longrightarrow>
      length (archiveOrder st') \<le> cap \<and>
      archiveOrder st' \<noteq> [] \<and> last (archiveOrder st') = key \<and>
      has key st' \<and>
      archiveStore st' key = Some (stamp now v) \<and>
      stamp now v ''timestamp'' = Some (JNum now) \<and>
      (\<forall>now'. now' - now \<le> ttl \<longrightarrow>
         fst (getArchive older ttl now' key st') = Some (stamp now v)))"
proof (intro conjI allI impI)
  assume "1 \<le> cap"
  then show "setArchive cap now key v st \<noteq> None" by (rule setArchive_returns)
next
  fix st' :: "'a cache"
  assume "setArchive cap now key v st = Some st'"
  then obtain st2 where len: "length (archiveOrder st2) < cap"
    and st': "st' = st2\<lparr>archiveStore := (archiveStore st2)(key \<mapsto> stamp now v),
                     archiveOrder := archiveOrder st2 @ [key]\<rparr>"
    using setArchive_SomeD by blast
  from len st' show "length (archiveOrder st') \<le> cap" by simp
  from st' show "archiveOrder st' \<noteq> []" by simp
  from st' show "last (archiveOrder st') = key" by simp
  from st' show "has key st'" by (simp add: has_def)
  from st' show stored: "archiveStore st' key = Some (stamp now v)" by simp
  show "stamp now v ''timestamp'' = Some (JNum now)" by (rule timestamp_stamp)
  fix now' :: int
  assume "now' - now \<le> ttl"
  then have "\<not> expired older ttl now' (stamp now v)" by (simp add: expired_stamp)
  with stored show "fst (getArchive older ttl now' key st') = Some (stamp now v)"
    by (simp add: getArchive_eq)
qed

theorem setArchive_guarantee_witness:
  "1 \<le> ARCHIVE_CACHE_MAX_SIZE \<and>
   setArchive ARCHIVE_CACHE_MAX_SIZE 0 ''k'' [''buffer'' \<mapsto> JOther ''v1''] initial_cache
     = Some \<lparr>archiveStore = [''k'' \<mapsto> [''buffer'' \<mapsto> JOther ''v1'', ''timestamp'' \<mapsto> JNum 0]],
             archiveOrder = [''k'']\<rparr> \<and>
   setArchive ARCHIVE_CACHE_MAX_SIZE 1620000 ''k'' [''buffer'' \<mapsto> JOther ''v2'']
       \<lparr>archiveStore = [''k'' \<mapsto> [''buffer'' \<mapsto> JOther ''v1'', ''timestamp'' \<mapsto> JNum 0]],
        archiveOrder = [''k'']\<rparr>
     = Some \<lparr>archiveStore = [''k'' \<mapsto> [''buffer'' \<mapsto> JOther ''v2'', ''timestamp'' \<mapsto> JNum 1620000]],
             archiveOrder = [''k'']\<rparr> \<and>
   length [''k''] \<le> ARCHIVE_CACHE_MAX_SIZE \<and>
   last [''k''] = ''k'' \<and>
   1800000 - 1620000 \<le> ARCHIVE_CACHE_TTL \<and>
   fst (getArchive (\<lambda>v n l. False) ARCHIVE_CACHE_TTL 1800000 ''k''
         \<lparr>archiveStore = [''k'' \<mapsto> [''buffer'' \<mapsto> JOther ''v2'', ''timestamp'' \<mapsto> JNum 1620000]],
          archiveOrder = [''k'']\<rparr>)
     = Some (stamp 1620000 [''buffer'' \<mapsto> JOther ''v2''])"
proof -
  let ?S1 = "\<lparr>archiveStore = [''k'' \<mapsto> [''buffer'' \<mapsto> JOther ''v1'', ''timestamp'' \<mapsto> JNum 0]],
             archiveOrder = [''k'']\<rparr>"
  let ?S2 = "\<lparr>archiveStore = [''k'' \<mapsto> [''buffer'' \<mapsto> JOther ''v2'', ''timestamp'' \<mapsto> JNum 1620000]],
             archiveOrder = [''k'']\<rparr>"
  have c: "1 \<le> ARCHIVE_CACHE_MAX_SIZE" by (simp add: ARCHIVE_CACHE_MAX_SIZE_def)
  have s1: "setArchive ARCHIVE_CACHE_MAX_SIZE 0 ''k'' [''buffer'' \<mapsto> JOther ''v1''] initial_cache = Some ?S1"
    by (simp add: cache_eval ARCHIVE_CACHE_MAX_SIZE_def)
  have s2: "setArchive ARCHIVE_CACHE_MAX_SIZE 1620000 ''k'' [''buffer'' \<mapsto> JOther ''v2''] ?S1 = Some ?S2"
    by (simp add: cache_eval ARCHIVE_CACHE_MAX_SIZE_def)
  have t: "(1800000::int) - 1620000 \<le> ARCHIVE_CACHE_TTL" by (simp add: ARCHIVE_CACHE_TTL_def)
  from setArchive_guarantee[of ARCHIVE_CACHE_MAX_SIZE 1620000 "''k''" "[''buffer'' \<mapsto> JOther ''v2'']" ?S1
         ARCHIVE_CACHE_TTL "\<lambda>v n l. False"] s2 t
  have "fst (getArchive (\<lambda>v n l. False) ARCHIVE_CACHE_TTL 1800000 ''k'' ?S2) = Some (stamp 1620000 [''buffer'' \<mapsto> JOther ''v2''])"
    by blast
  with c s1 s2 t show ?thesis by simp
qed

text \<open>
  C3. \<^verbatim>\<open>get(key)\<close> on a key that is not in the map returns \<^verbatim>\<open>null\<close> and leaves the state
  as it is. On a key whose entry has expired it returns \<^verbatim>\<open>null\<close> and deletes the key from
  the map and from the order array. Otherwise it returns the entry, leaves the map (and so
  every timestamp) untouched, and moves the key to the back of the order array (if the key
  is not in the array, which the invariant rules out, the array stays as it is). An entry
  stamped at \<open>t\<close> has expired exactly when \<open>now - t > ttl\<close>; an entry whose \<open>timestamp\<close> holds
  another value \<open>v\<close> has expired exactly when JavaScript finds \<open>now - v > ttl\<close> after coercing
  \<open>v\<close>; an entry without a \<open>timestamp\<close> has not expired. The two statements about where the
  key stands in the order array are for states that satisfy the invariant of the data model,
  which is every state the module reaches.
\<close>

theorem getArchive_cases:
  "(archiveStore st key = None \<longrightarrow> getArchive older ttl now key st = (None, st)) \<and>
   (\<forall>item. archiveStore st key = Some item \<and> expired older ttl now item \<longrightarrow>
      getArchive older ttl now key st =
        (None, st\<lparr>archiveStore := (archiveStore st)(key := None),
                  archiveOrder := remove1 key (archiveOrder st)\<rparr>) \<and>
      \<not> has key (snd (getArchive older ttl now key st)) \<and>
      (cache_inv cap st \<longrightarrow> key \<notin> set (archiveOrder (snd (getArchive older ttl now key st))))) \<and>
   (\<forall>item. archiveStore st key = Some item \<and> \<not> expired older ttl now item \<longrightarrow>
      fst (getArchive older ttl now key st) = Some item \<and>
      archiveStore (snd (getArchive older ttl now key st)) = archiveStore st \<and>
      snd (getArchive older ttl now key st) =
        (if key \<in> set (archiveOrder st)
         then st\<lparr>archiveOrder := remove1 key (archiveOrder st) @ [key]\<rparr> else st) \<and>
      (cache_inv cap st \<longrightarrow>
         snd (getArchive older ttl now key st) =
           st\<lparr>archiveOrder := remove1 key (archiveOrder st) @ [key]\<rparr> \<and>
         last (archiveOrder (snd (getArchive older ttl now key st))) = key)) \<and>
   (\<forall>item t. archiveStore st key = Some item \<and> item ''timestamp'' = Some (JNum t) \<longrightarrow>
      expired older ttl now item = (now - t > ttl)) \<and>
   (\<forall>item v. archiveStore st key = Some item \<and> item ''timestamp'' = Some (JOther v) \<longrightarrow>
      expired older ttl now item = older v now ttl) \<and>
   (\<forall>item. archiveStore st key = Some item \<and> item ''timestamp'' = None \<longrightarrow>
      \<not> expired older ttl now item)"
proof (intro conjI allI impI; (elim conjE)?)
  assume "archiveStore st key = None"
  then show "getArchive older ttl now key st = (None, st)" by (simp add: getArchive_eq)
next
  fix item
  assume item: "archiveStore st key = Some item" "expired older ttl now item"
  then show g: "getArchive older ttl now key st =
        (None, st\<lparr>archiveStore := (archiveStore st)(key := None),
                  archiveOrder := remove1 key (archiveOrder st)\<rparr>)"
    by (simp add: getArchive_eq deleteArchive_eq)
  then show "\<not> has key (snd (getArchive older ttl now key st))" by (simp add: has_def)
  assume "cache_inv cap st"
  then have "distinct (archiveOrder st)" by (simp add: cache_inv_def)
  with g show "key \<notin> set (archiveOrder (snd (getArchive older ttl now key st)))" by simp
next
  fix item
  assume item: "archiveStore st key = Some item" "\<not> expired older ttl now item"
  then show "fst (getArchive older ttl now key st) = Some item" by (simp add: getArchive_eq)
  from item show "archiveStore (snd (getArchive older ttl now key st)) = archiveStore st"
    by (simp add: getArchive_eq)
  from item show "snd (getArchive older ttl now key st) =
        (if key \<in> set (archiveOrder st)
         then st\<lparr>archiveOrder := remove1 key (archiveOrder st) @ [key]\<rparr> else st)"
    by (simp add: getArchive_eq)
  assume "cache_inv cap st"
  with item have "key \<in> set (archiveOrder st)" by (auto simp: cache_inv_def)
  with item show moved: "snd (getArchive older ttl now key st) =
           st\<lparr>archiveOrder := remove1 key (archiveOrder st) @ [key]\<rparr>"
    by (simp add: getArchive_eq)
  then show "last (archiveOrder (snd (getArchive older ttl now key st))) = key" by simp
next
  fix item t
  assume "archiveStore st key = Some item" and "item ''timestamp'' = Some (JNum t)"
  then show "expired older ttl now item = (now - t > ttl)" by (simp add: expired_iff)
next
  fix item v
  assume "archiveStore st key = Some item" and "item ''timestamp'' = Some (JOther v)"
  then show "expired older ttl now item = older v now ttl" by (simp add: expired_def)
next
  fix item
  assume "archiveStore st key = Some item" and "item ''timestamp'' = None"
  then show "\<not> expired older ttl now item" by (simp add: expired_def)
qed

theorem getArchive_cases_witness:
  "archiveStore \<lparr>archiveStore = [''a'' \<mapsto> [''timestamp'' \<mapsto> JNum 0], ''b'' \<mapsto> [''timestamp'' \<mapsto> JNum 1000]],
                 archiveOrder = [''b'', ''a'']\<rparr> ''c'' = (None :: string obj option) \<and>
   getArchive (\<lambda>v n l. False) ARCHIVE_CACHE_TTL 1800500 ''c''
       \<lparr>archiveStore = [''a'' \<mapsto> [''timestamp'' \<mapsto> JNum 0], ''b'' \<mapsto> [''timestamp'' \<mapsto> JNum 1000]],
        archiveOrder = [''b'', ''a'']\<rparr>
     = (None :: string obj option,
        \<lparr>archiveStore = [''a'' \<mapsto> [''timestamp'' \<mapsto> JNum 0], ''b'' \<mapsto> [''timestamp'' \<mapsto> JNum 1000]],
         archiveOrder = [''b'', ''a'']\<rparr>) \<and>
   cache_inv ARCHIVE_CACHE_MAX_SIZE
       \<lparr>archiveStore = [''a'' \<mapsto> [''timestamp'' \<mapsto> JNum 0 :: string jsval], ''b'' \<mapsto> [''timestamp'' \<mapsto> JNum 1000]],
        archiveOrder = [''b'', ''a'']\<rparr> \<and>
   [''timestamp'' \<mapsto> JNum 0 :: string jsval] ''timestamp'' = Some (JNum 0) \<and>
   ARCHIVE_CACHE_TTL < 1800500 - 0 \<and>
   getArchive (\<lambda>v n l. False) ARCHIVE_CACHE_TTL 1800500 ''a''
       \<lparr>archiveStore = [''a'' \<mapsto> [''timestamp'' \<mapsto> JNum 0], ''b'' \<mapsto> [''timestamp'' \<mapsto> JNum 1000]],
        archiveOrder = [''b'', ''a'']\<rparr>
     = (None :: string obj option,
        \<lparr>archiveStore = [''a'' \<mapsto> [''timestamp'' \<mapsto> JNum 0], ''b'' \<mapsto> [''timestamp'' \<mapsto> JNum 1000]](''a'' := None),
         archiveOrder = [''b'']\<rparr>) \<and>
   [''timestamp'' \<mapsto> JNum 1000 :: string jsval] ''timestamp'' = Some (JNum 1000) \<and>
   1800500 - 1000 \<le> ARCHIVE_CACHE_TTL \<and>
   getArchive (\<lambda>v n l. False) ARCHIVE_CACHE_TTL 1800500 ''b''
       \<lparr>archiveStore = [''a'' \<mapsto> [''timestamp'' \<mapsto> JNum 0], ''b'' \<mapsto> [''timestamp'' \<mapsto> JNum 1000]],
        archiveOrder = [''b'', ''a'']\<rparr>
     = (Some [''timestamp'' \<mapsto> JNum 1000 :: string jsval],
        \<lparr>archiveStore = [''a'' \<mapsto> [''timestamp'' \<mapsto> JNum 0], ''b'' \<mapsto> [''timestamp'' \<mapsto> JNum 1000]],
         archiveOrder = [''a'', ''b'']\<rparr>) \<and>
   getArchive (\<lambda>v n l. v = ''0'' \<and> l < n - 0) ARCHIVE_CACHE_TTL 1800001 ''k''
       \<lparr>archiveStore = [''k'' \<mapsto> [''timestamp'' \<mapsto> JOther ''0'']], archiveOrder = [''k'']\<rparr>
     = (None,
        \<lparr>archiveStore = [''k'' \<mapsto> [''timestamp'' \<mapsto> JOther ''0'']](''k'' := None),
         archiveOrder = []\<rparr>)"
proof -
  let ?C = "\<lambda>v n l. v = ''0'' \<and> l < n - (0::int)"
  let ?Z = "\<lparr>archiveStore = [''k'' \<mapsto> [''timestamp'' \<mapsto> JOther ''0'']], archiveOrder = [''k'']\<rparr>"
  note instz = getArchive_cases[of ?Z "''k''" ?C ARCHIVE_CACHE_TTL 1800001 ARCHIVE_CACHE_MAX_SIZE]
  have sz: "archiveStore ?Z ''k'' = Some [''timestamp'' \<mapsto> JOther ''0''] \<and>
            [''timestamp'' \<mapsto> JOther ''0''] ''timestamp'' = Some (JOther ''0'')"
    by simp
  from instz sz have "expired ?C ARCHIVE_CACHE_TTL 1800001 [''timestamp'' \<mapsto> JOther ''0'']
      = ?C ''0'' 1800001 ARCHIVE_CACHE_TTL"
    by blast
  then have ez: "expired ?C ARCHIVE_CACHE_TTL 1800001 [''timestamp'' \<mapsto> JOther ''0'']"
    by (simp add: ARCHIVE_CACHE_TTL_def)
  from instz sz ez
  have gz: "getArchive ?C ARCHIVE_CACHE_TTL 1800001 ''k'' ?Z =
             (None, ?Z\<lparr>archiveStore := (archiveStore ?Z)(''k'' := None),
                       archiveOrder := remove1 ''k'' (archiveOrder ?Z)\<rparr>)"
    by blast
  let ?A = "[''timestamp'' \<mapsto> JNum 0 :: string jsval]"
  let ?B = "[''timestamp'' \<mapsto> JNum 1000 :: string jsval]"
  let ?S = "\<lparr>archiveStore = [''a'' \<mapsto> ?A, ''b'' \<mapsto> ?B], archiveOrder = [''b'', ''a'']\<rparr>"
  have absent: "archiveStore ?S ''c'' = None" by simp
  note inst = getArchive_cases[of ?S _ "\<lambda>v n l. False" ARCHIVE_CACHE_TTL 1800500 ARCHIVE_CACHE_MAX_SIZE]
  have ta: "?A ''timestamp'' = Some (JNum 0) \<and> ARCHIVE_CACHE_TTL < 1800500 - 0"
    by (simp add: ARCHIVE_CACHE_TTL_def)
  have tb: "?B ''timestamp'' = Some (JNum 1000) \<and> 1800500 - 1000 \<le> ARCHIVE_CACHE_TTL"
    by (simp add: ARCHIVE_CACHE_TTL_def)
  have sa: "archiveStore ?S ''a'' = Some ?A" by simp
  have sb: "archiveStore ?S ''b'' = Some ?B" by simp
  from inst[of "''a''"] sa ta
  have "expired (\<lambda>v n l. False) ARCHIVE_CACHE_TTL 1800500 ?A = (1800500 - 0 > ARCHIVE_CACHE_TTL)"
    by blast
  with sa ta have a: "archiveStore ?S ''a'' = Some ?A \<and> expired (\<lambda>v n l. False) ARCHIVE_CACHE_TTL 1800500 ?A"
    by simp
  from inst[of "''b''"] sb tb
  have "expired (\<lambda>v n l. False) ARCHIVE_CACHE_TTL 1800500 ?B = (1800500 - 1000 > ARCHIVE_CACHE_TTL)"
    by blast
  with sb tb have b: "archiveStore ?S ''b'' = Some ?B \<and> \<not> expired (\<lambda>v n l. False) ARCHIVE_CACHE_TTL 1800500 ?B"
    by simp
  have inv: "cache_inv ARCHIVE_CACHE_MAX_SIZE ?S"
    by (auto simp: cache_inv_def ARCHIVE_CACHE_MAX_SIZE_def)
  from inst[of "''c''"] absent
  have g1: "getArchive (\<lambda>v n l. False) ARCHIVE_CACHE_TTL 1800500 ''c'' ?S = (None, ?S)" by blast
  from inst[of "''a''"] a
  have g2: "getArchive (\<lambda>v n l. False) ARCHIVE_CACHE_TTL 1800500 ''a'' ?S =
             (None, ?S\<lparr>archiveStore := (archiveStore ?S)(''a'' := None),
                       archiveOrder := remove1 ''a'' (archiveOrder ?S)\<rparr>)"
    by blast
  from inst[of "''b''"] b inv
  have g3a: "fst (getArchive (\<lambda>v n l. False) ARCHIVE_CACHE_TTL 1800500 ''b'' ?S) = Some ?B \<and>
           snd (getArchive (\<lambda>v n l. False) ARCHIVE_CACHE_TTL 1800500 ''b'' ?S) =
             ?S\<lparr>archiveOrder := remove1 ''b'' (archiveOrder ?S) @ [''b'']\<rparr>"
    by blast
  have g3: "getArchive (\<lambda>v n l. False) ARCHIVE_CACHE_TTL 1800500 ''b'' ?S =
             (Some ?B, ?S\<lparr>archiveOrder := remove1 ''b'' (archiveOrder ?S) @ [''b'']\<rparr>)"
    using g3a by (simp add: prod_eq_iff)
  from absent ta tb inv g1 show ?thesis
    unfolding g2 g3 gz by simp
qed






text \<open>
  C6, as stated, fails: a \<open>timestamp\<close> property supplied by the caller is replaced by the time
  of the call, because \<^verbatim>\<open>timestamp: Date.now()\<close> comes after \<^verbatim>\<open>...value\<close> in the object
  literal.
\<close>

theorem caller_timestamp_counterexample:
  "setArchive ARCHIVE_CACHE_MAX_SIZE 100 ''k'' [''buffer'' \<mapsto> JOther ''x'', ''timestamp'' \<mapsto> JNum 5]
       (initial_cache :: string cache)
     = Some \<lparr>archiveStore = [''k'' \<mapsto> [''buffer'' \<mapsto> JOther ''x'', ''timestamp'' \<mapsto> JNum 100]],
             archiveOrder = [''k'']\<rparr> \<and>
   fst (getArchive (\<lambda>v n l. False) ARCHIVE_CACHE_TTL 100 ''k''
         \<lparr>archiveStore = [''k'' \<mapsto> [''buffer'' \<mapsto> JOther ''x'', ''timestamp'' \<mapsto> JNum 100]],
          archiveOrder = [''k'']\<rparr>)
     = Some [''buffer'' \<mapsto> JOther ''x'', ''timestamp'' \<mapsto> JNum 100] \<and>
   [''buffer'' \<mapsto> JOther ''x'', ''timestamp'' \<mapsto> JNum 100] ''timestamp''
     \<noteq> [''buffer'' \<mapsto> JOther ''x'', ''timestamp'' \<mapsto> JNum 5] ''timestamp''"
  by (simp add: cache_eval ARCHIVE_CACHE_MAX_SIZE_def ARCHIVE_CACHE_TTL_def)

text \<open>
  C6, amended. With a capacity of at least one \<^verbatim>\<open>set(key, value)\<close> returns, from any
  state. The entry it stores has every property of \<open>value\<close> other than \<open>timestamp\<close> with the
  value the caller gave, has no further property but \<open>timestamp\<close>, and its \<open>timestamp\<close> is the
  time of the call, whether or not the caller supplied one; a \<^verbatim>\<open>get\<close> of the key no later
  than \<open>ttl\<close> after the call returns that entry.
\<close>

theorem setArchive_payload:
  assumes "1 \<le> cap" and "now' - now \<le> ttl"
  shows "\<exists>st' entry. setArchive cap now key v st = Some st' \<and>
           archiveStore st' key = Some entry \<and>
           fst (getArchive older ttl now' key st') = Some entry \<and>
           (\<forall>f. f \<noteq> ''timestamp'' \<longrightarrow> entry f = v f) \<and>
           entry ''timestamp'' = Some (JNum now)"
proof -
  from assms(1) obtain st' where s: "setArchive cap now key v st = Some st'"
    using setArchive_returns[of cap now key v st] by auto
  then obtain st2 where
    "st' = st2\<lparr>archiveStore := (archiveStore st2)(key \<mapsto> stamp now v),
              archiveOrder := archiveOrder st2 @ [key]\<rparr>"
    using setArchive_SomeD by blast
  then have stored: "archiveStore st' key = Some (stamp now v)" by simp
  from assms(2) have "\<not> expired older ttl now' (stamp now v)" by (simp add: expired_stamp)
  with stored have "fst (getArchive older ttl now' key st') = Some (stamp now v)"
    by (simp add: getArchive_eq)
  moreover have "\<forall>f. f \<noteq> ''timestamp'' \<longrightarrow> stamp now v f = v f"
    by (simp add: stamp_def)
  moreover have "stamp now v ''timestamp'' = Some (JNum now)"
    by (simp add: stamp_def)
  ultimately show ?thesis using s stored by blast
qed

theorem setArchive_payload_witness:
  "1 \<le> ARCHIVE_CACHE_MAX_SIZE \<and>
   200 - 100 \<le> ARCHIVE_CACHE_TTL \<and>
   setArchive ARCHIVE_CACHE_MAX_SIZE 100 ''k'' [''buffer'' \<mapsto> JOther ''x'', ''timestamp'' \<mapsto> JNum 5]
       (initial_cache :: string cache)
     = Some \<lparr>archiveStore = [''k'' \<mapsto> [''buffer'' \<mapsto> JOther ''x'', ''timestamp'' \<mapsto> JNum 100]],
             archiveOrder = [''k'']\<rparr> \<and>
   fst (getArchive (\<lambda>v n l. False) ARCHIVE_CACHE_TTL 200 ''k''
         \<lparr>archiveStore = [''k'' \<mapsto> [''buffer'' \<mapsto> JOther ''x'', ''timestamp'' \<mapsto> JNum 100]],
          archiveOrder = [''k'']\<rparr>)
     = Some [''buffer'' \<mapsto> JOther ''x'', ''timestamp'' \<mapsto> JNum 100] \<and>
   [''buffer'' \<mapsto> JOther ''x'', ''timestamp'' \<mapsto> JNum 100] ''buffer''
     = [''buffer'' \<mapsto> JOther ''x'', ''timestamp'' \<mapsto> JNum 5] ''buffer''"
proof -
  let ?V = "[''buffer'' \<mapsto> JOther ''x'', ''timestamp'' \<mapsto> JNum 5]"
  let ?E = "[''buffer'' \<mapsto> JOther ''x'', ''timestamp'' \<mapsto> JNum 100]"
  let ?S = "\<lparr>archiveStore = [''k'' \<mapsto> ?E], archiveOrder = [''k'']\<rparr>"
  have c: "1 \<le> ARCHIVE_CACHE_MAX_SIZE" by (simp add: ARCHIVE_CACHE_MAX_SIZE_def)
  have t: "(200::int) - 100 \<le> ARCHIVE_CACHE_TTL" by (simp add: ARCHIVE_CACHE_TTL_def)
  have s: "setArchive ARCHIVE_CACHE_MAX_SIZE 100 ''k'' ?V (initial_cache :: string cache) = Some ?S"
    by (simp add: cache_eval ARCHIVE_CACHE_MAX_SIZE_def)
  from setArchive_payload[OF c t, of "''k''" ?V initial_cache "\<lambda>v n l. False"]
  have "fst (getArchive (\<lambda>v n l. False) ARCHIVE_CACHE_TTL 200 ''k'' ?S) = Some ?E \<and>
        ?E ''buffer'' = ?V ''buffer''"
    unfolding s by auto
  with c t s show ?thesis by simp
qed

text \<open>
  C7. \<^verbatim>\<open>has(key)\<close> is true exactly when the key is in the map; the age of the entry plays
  no part. For an entry stamped at \<open>t\<close> with \<open>now - t > ttl\<close>, \<^verbatim>\<open>has\<close> is still true; a
  \<^verbatim>\<open>get\<close> at \<open>now\<close> returns \<^verbatim>\<open>null\<close>, and after it \<^verbatim>\<open>has\<close> is false.
\<close>

theorem has_ignores_ttl:
  "has key st = (key \<in> dom (archiveStore st)) \<and>
   (\<forall>item t. archiveStore st key = Some item \<and> item ''timestamp'' = Some (JNum t) \<and> ttl < now - t \<longrightarrow>
      has key st \<and>
      fst (getArchive older ttl now key st) = None \<and>
      \<not> has key (snd (getArchive older ttl now key st)))"
proof (intro conjI allI impI; (elim conjE)?)
  show "has key st = (key \<in> dom (archiveStore st))" by (auto simp: has_def)
next
  fix item t
  assume item: "archiveStore st key = Some item" "item ''timestamp'' = Some (JNum t)" "ttl < now - t"
  then show "has key st" by (simp add: has_def)
  from item have "expired older ttl now item" by (simp add: expired_iff)
  with item have g: "getArchive older ttl now key st = (None, deleteArchive key st)"
    by (simp add: getArchive_eq)
  then show "fst (getArchive older ttl now key st) = None" by simp
  from g show "\<not> has key (snd (getArchive older ttl now key st))"
    by (simp add: has_def deleteArchive_eq)
qed

theorem has_ignores_ttl_witness:
  "archiveStore \<lparr>archiveStore = [''k'' \<mapsto> [''timestamp'' \<mapsto> JNum 0 :: string jsval]], archiveOrder = [''k'']\<rparr> ''k''
     = Some [''timestamp'' \<mapsto> JNum 0] \<and>
   [''timestamp'' \<mapsto> JNum 0 :: string jsval] ''timestamp'' = Some (JNum 0) \<and>
   ARCHIVE_CACHE_TTL < 1800001 - 0 \<and>
   has ''k'' \<lparr>archiveStore = [''k'' \<mapsto> [''timestamp'' \<mapsto> JNum 0 :: string jsval]], archiveOrder = [''k'']\<rparr> \<and>
   getArchive (\<lambda>v n l. False) ARCHIVE_CACHE_TTL 1800001 ''k''
       \<lparr>archiveStore = [''k'' \<mapsto> [''timestamp'' \<mapsto> JNum 0 :: string jsval]], archiveOrder = [''k'']\<rparr>
     = (None, \<lparr>archiveStore = [''k'' \<mapsto> [''timestamp'' \<mapsto> JNum 0]](''k'' := None), archiveOrder = []\<rparr>) \<and>
   \<not> has ''k'' (snd (getArchive (\<lambda>v n l. False) ARCHIVE_CACHE_TTL 1800001 ''k''
       \<lparr>archiveStore = [''k'' \<mapsto> [''timestamp'' \<mapsto> JNum 0 :: string jsval]], archiveOrder = [''k'']\<rparr>))"
proof -
  let ?E = "[''timestamp'' \<mapsto> JNum 0 :: string jsval]"
  let ?S = "\<lparr>archiveStore = [''k'' \<mapsto> ?E], archiveOrder = [''k'']\<rparr>"
  have h: "archiveStore ?S ''k'' = Some ?E \<and> ?E ''timestamp'' = Some (JNum 0) \<and> ARCHIVE_CACHE_TTL < 1800001 - 0"
    by (simp add: ARCHIVE_CACHE_TTL_def)
  from has_ignores_ttl[of "''k''" ?S ARCHIVE_CACHE_TTL 1800001 "\<lambda>v n l. False"] h
  have r: "has ''k'' ?S \<and> \<not> has ''k'' (snd (getArchive (\<lambda>v n l. False) ARCHIVE_CACHE_TTL 1800001 ''k'' ?S))"
    by blast
  have g: "getArchive (\<lambda>v n l. False) ARCHIVE_CACHE_TTL 1800001 ''k'' ?S
     = (None, \<lparr>archiveStore = [''k'' \<mapsto> ?E](''k'' := None), archiveOrder = []\<rparr>)"
    by (simp add: cache_eval ARCHIVE_CACHE_TTL_def)
  from h r g show ?thesis by blast
qed

text \<open>
  C8. \<^verbatim>\<open>delete(key)\<close> always returns; afterwards the key is not in the map, every other
  key has the entry it had, and the order array has lost the first occurrence of the key. In a
  state that satisfies the invariant of the data model the key is then not in the order array
  either; if the key was not in the map the state, and so the size reported by
  \<^verbatim>\<open>stats()\<close>, is unchanged; and a second \<^verbatim>\<open>delete(key)\<close> changes nothing more.
\<close>

theorem deleteArchive_idempotent:
  "\<not> has key (deleteArchive key st) \<and>
   (\<forall>k. k \<noteq> key \<longrightarrow> archiveStore (deleteArchive key st) k = archiveStore st k) \<and>
   archiveOrder (deleteArchive key st) = remove1 key (archiveOrder st) \<and>
   (cache_inv cap st \<longrightarrow>
      key \<notin> set (archiveOrder (deleteArchive key st)) \<and>
      (\<not> has key st \<longrightarrow>
         deleteArchive key st = st \<and>
         stats_size (getArchiveCacheStats cap (deleteArchive key st))
           = stats_size (getArchiveCacheStats cap st)) \<and>
      deleteArchive key (deleteArchive key st) = deleteArchive key st)"
proof (intro conjI allI impI)
  show "\<not> has key (deleteArchive key st)" by (simp add: has_def deleteArchive_eq)
  show "archiveOrder (deleteArchive key st) = remove1 key (archiveOrder st)"
    by (simp add: deleteArchive_eq)
  show "archiveStore (deleteArchive key st) k = archiveStore st k" if "k \<noteq> key" for k
    using that by (simp add: deleteArchive_eq)
next
  assume inv: "cache_inv cap st"
  then have d: "distinct (archiveOrder st)" and eq: "set (archiveOrder st) = dom (archiveStore st)"
    by (simp_all add: cache_inv_def)
  from d show gone: "key \<notin> set (archiveOrder (deleteArchive key st))"
    by (simp add: deleteArchive_eq)
  from d show "deleteArchive key (deleteArchive key st) = deleteArchive key st"
    by (simp add: deleteArchive_eq remove1_idem)
  assume "\<not> has key st"
  then have none: "archiveStore st key = None" by (simp add: has_def)
  with eq have "key \<notin> set (archiveOrder st)" by auto
  moreover from none have "(archiveStore st)(key := None) = archiveStore st"
    by (rule fun_upd_idem)
  ultimately show same: "deleteArchive key st = st"
    by (simp add: deleteArchive_eq remove1_idem)
  then show "stats_size (getArchiveCacheStats cap (deleteArchive key st))
           = stats_size (getArchiveCacheStats cap st)"
    by simp
qed

theorem deleteArchive_idempotent_witness:
  "cache_inv ARCHIVE_CACHE_MAX_SIZE
     \<lparr>archiveStore = [''a'' \<mapsto> [''timestamp'' \<mapsto> JNum 0 :: string jsval]], archiveOrder = [''a'']\<rparr> \<and>
   \<not> has ''b'' \<lparr>archiveStore = [''a'' \<mapsto> [''timestamp'' \<mapsto> JNum 0 :: string jsval]], archiveOrder = [''a'']\<rparr> \<and>
   deleteArchive ''b'' \<lparr>archiveStore = [''a'' \<mapsto> [''timestamp'' \<mapsto> JNum 0 :: string jsval]], archiveOrder = [''a'']\<rparr>
     = \<lparr>archiveStore = [''a'' \<mapsto> [''timestamp'' \<mapsto> JNum 0 :: string jsval]], archiveOrder = [''a'']\<rparr> \<and>
   archiveOrder (deleteArchive ''a''
       \<lparr>archiveStore = [''a'' \<mapsto> [''timestamp'' \<mapsto> JNum 0 :: string jsval]], archiveOrder = [''a'']\<rparr>) = [] \<and>
   deleteArchive ''a'' (deleteArchive ''a''
       \<lparr>archiveStore = [''a'' \<mapsto> [''timestamp'' \<mapsto> JNum 0 :: string jsval]], archiveOrder = [''a'']\<rparr>)
     = deleteArchive ''a''
       \<lparr>archiveStore = [''a'' \<mapsto> [''timestamp'' \<mapsto> JNum 0 :: string jsval]], archiveOrder = [''a'']\<rparr>"
proof -
  let ?S = "\<lparr>archiveStore = [''a'' \<mapsto> [''timestamp'' \<mapsto> JNum 0 :: string jsval]], archiveOrder = [''a'']\<rparr>"
  have inv: "cache_inv ARCHIVE_CACHE_MAX_SIZE ?S"
    by (simp add: cache_inv_def ARCHIVE_CACHE_MAX_SIZE_def)
  have nb: "\<not> has ''b'' ?S" by (simp add: has_def)
  from deleteArchive_idempotent[of "''b''" ?S ARCHIVE_CACHE_MAX_SIZE] inv nb
  have b: "deleteArchive ''b'' ?S = ?S" by blast
  from deleteArchive_idempotent[of "''a''" ?S ARCHIVE_CACHE_MAX_SIZE] inv
  have a: "archiveOrder (deleteArchive ''a'' ?S) = remove1 ''a'' (archiveOrder ?S) \<and>
           deleteArchive ''a'' (deleteArchive ''a'' ?S) = deleteArchive ''a'' ?S"
    by blast
  from inv nb b a show ?thesis by simp
qed

text \<open>
  C9. From a state that satisfies the invariant of the data model, with a capacity of at least
  one, \<^verbatim>\<open>set(key, value)\<close> returns and takes at most one key out of the map: only ever the
  front of the order array, never \<open>key\<close> itself, and none at all when the array was shorter than
  the capacity or \<open>key\<close> was already in the map. Every other key that is in the map afterwards, apart from \<open>key\<close>, was there
  before with the same entry (timestamp included), and these keys stand in the order array
  in the same relative order as before.
\<close>

theorem setArchive_frame:
  assumes "cache_inv cap st" and "1 \<le> cap"
  shows "\<exists>st'. setArchive cap now key v st = Some st' \<and>
           dom (archiveStore st) - dom (archiveStore st') \<subseteq> {hd (archiveOrder st)} \<and>
           card (dom (archiveStore st) - dom (archiveStore st')) \<le> 1 \<and>
           key \<in> dom (archiveStore st') \<and>
           (length (archiveOrder st) < cap \<or> has key st \<longrightarrow>
              dom (archiveStore st) \<subseteq> dom (archiveStore st')) \<and>
           (\<forall>k. k \<noteq> key \<and> k \<in> dom (archiveStore st') \<longrightarrow> archiveStore st' k = archiveStore st k) \<and>
           filter (\<lambda>k. k \<noteq> key) (archiveOrder st')
             = filter (\<lambda>k. k \<noteq> key \<and> k \<in> dom (archiveStore st')) (archiveOrder st)"
proof -
  from assms(1) have inv: "set (archiveOrder st) = dom (archiveStore st)"
    "distinct (archiveOrder st)" "length (archiveOrder st) \<le> cap"
    by (simp_all add: cache_inv_def)
  have card1: "card A \<le> 1" if "A \<subseteq> {x}" for A :: "string set" and x
    using that card_mono[of "{x}" A] by simp
  show ?thesis
  proof (cases "archiveStore st key")
    case (Some item)
    let ?st' = "st\<lparr>archiveStore := (archiveStore st)(key \<mapsto> stamp now v),
                   archiveOrder := remove1 key (archiveOrder st) @ [key]\<rparr>"
    from Some assms(1) have s: "setArchive cap now key v st = Some ?st'"
      by (simp add: setArchive_present)
    have sub: "dom (archiveStore st) - dom (archiveStore ?st') \<subseteq> {hd (archiveOrder st)}" by auto
    have "filter (\<lambda>k. k \<noteq> key) (archiveOrder ?st')
            = filter (\<lambda>k. k \<noteq> key \<and> k \<in> dom (archiveStore ?st')) (archiveOrder st)"
      using inv(1) by (auto simp: filter_remove1_other intro: filter_cong)
    with s sub card1[OF sub] show ?thesis by auto
  next
    case None
    with inv(1) have notin: "key \<notin> set (archiveOrder st)" by auto
    show ?thesis
    proof (cases "length (archiveOrder st) < cap")
      case True
      let ?st' = "st\<lparr>archiveStore := (archiveStore st)(key \<mapsto> stamp now v),
                     archiveOrder := archiveOrder st @ [key]\<rparr>"
      from None True have s: "setArchive cap now key v st = Some ?st'"
        by (rule setArchive_room)
      have sub: "dom (archiveStore st) - dom (archiveStore ?st') \<subseteq> {hd (archiveOrder st)}" by auto
      have "filter (\<lambda>k. k \<noteq> key) (archiveOrder ?st')
            = filter (\<lambda>k. k \<noteq> key \<and> k \<in> dom (archiveStore ?st')) (archiveOrder st)"
        using inv(1) by (auto intro: filter_cong)
      with s sub card1[OF sub] show ?thesis by auto
    next
      case False
      with inv(3) have full: "length (archiveOrder st) = cap" by simp
      with assms(2) obtain k0 ks where ord: "archiveOrder st = k0 # ks"
        by (cases "archiveOrder st") auto
      let ?st' = "st\<lparr>archiveStore := (archiveStore st)(hd (archiveOrder st) := None, key \<mapsto> stamp now v),
                     archiveOrder := tl (archiveOrder st) @ [key]\<rparr>"
      from None assms(2) full have s: "setArchive cap now key v st = Some ?st'"
        by (rule setArchive_full)
      have sub: "dom (archiveStore st) - dom (archiveStore ?st') \<subseteq> {hd (archiveOrder st)}" by auto
      from ord notin have ne: "k0 \<noteq> key" by auto
      from inv(1,2) ord have ks: "k0 \<notin> set ks" "set ks \<subseteq> dom (archiveStore st)" by auto
      have "filter (\<lambda>k. k \<noteq> key) (archiveOrder ?st')
            = filter (\<lambda>k. k \<noteq> key \<and> k \<in> dom (archiveStore ?st')) (archiveOrder st)"
        using ks ne by (auto simp: ord intro: filter_cong)
      moreover from False have "\<not> length (archiveOrder st) < cap" .
      ultimately show ?thesis using s sub card1[OF sub] ne None by (auto simp: ord has_def)
    qed
  qed
qed

theorem setArchive_frame_witness:
  "cache_inv 2 \<lparr>archiveStore = [''a'' \<mapsto> [''timestamp'' \<mapsto> JNum 0 :: string jsval], ''b'' \<mapsto> [''timestamp'' \<mapsto> JNum 4]],
               archiveOrder = [''a'', ''b'']\<rparr> \<and>
   1 \<le> (2::nat) \<and>
   setArchive 2 9 ''c'' Map.empty
       \<lparr>archiveStore = [''a'' \<mapsto> [''timestamp'' \<mapsto> JNum 0 :: string jsval], ''b'' \<mapsto> [''timestamp'' \<mapsto> JNum 4]],
        archiveOrder = [''a'', ''b'']\<rparr>
     = Some \<lparr>archiveStore = [''a'' \<mapsto> [''timestamp'' \<mapsto> JNum 0], ''b'' \<mapsto> [''timestamp'' \<mapsto> JNum 4]]
                               (''a'' := None, ''c'' \<mapsto> [''timestamp'' \<mapsto> JNum 9]),
             archiveOrder = [''b'', ''c'']\<rparr> \<and>
   dom [''a'' \<mapsto> [''timestamp'' \<mapsto> JNum 0 :: string jsval], ''b'' \<mapsto> [''timestamp'' \<mapsto> JNum 4]]
     - dom ([''a'' \<mapsto> [''timestamp'' \<mapsto> JNum 0 :: string jsval], ''b'' \<mapsto> [''timestamp'' \<mapsto> JNum 4]]
              (''a'' := None, ''c'' \<mapsto> [''timestamp'' \<mapsto> JNum 9]))
     \<subseteq> {hd [''a'', ''b'']} \<and>
   ([''a'' \<mapsto> [''timestamp'' \<mapsto> JNum 0 :: string jsval], ''b'' \<mapsto> [''timestamp'' \<mapsto> JNum 4]]
      (''a'' := None, ''c'' \<mapsto> [''timestamp'' \<mapsto> JNum 9])) ''b''
     = [''a'' \<mapsto> [''timestamp'' \<mapsto> JNum 0 :: string jsval], ''b'' \<mapsto> [''timestamp'' \<mapsto> JNum 4]] ''b'' \<and>
   filter (\<lambda>k. k \<noteq> ''c'') [''b'', ''c''] = [''b'']"
proof -
  let ?M = "[''a'' \<mapsto> [''timestamp'' \<mapsto> JNum 0 :: string jsval], ''b'' \<mapsto> [''timestamp'' \<mapsto> JNum 4]]"
  let ?S = "\<lparr>archiveStore = ?M, archiveOrder = [''a'', ''b'']\<rparr>"
  let ?S' = "\<lparr>archiveStore = ?M(''a'' := None, ''c'' \<mapsto> [''timestamp'' \<mapsto> JNum 9]),
             archiveOrder = [''b'', ''c'']\<rparr>"
  have inv: "cache_inv 2 ?S" by (auto simp: cache_inv_def)
  have c: "1 \<le> (2::nat)" by simp
  have s: "setArchive 2 9 ''c'' Map.empty ?S = Some ?S'"
    by (simp add: cache_eval)
  from setArchive_frame[OF inv c, of 9 "''c''" Map.empty] s
  have r: "dom (archiveStore ?S) - dom (archiveStore ?S') \<subseteq> {hd (archiveOrder ?S)} \<and>
        (\<forall>k. k \<noteq> ''c'' \<and> k \<in> dom (archiveStore ?S') \<longrightarrow> archiveStore ?S' k = archiveStore ?S k)"
    by auto
  then have "archiveStore ?S' ''b'' = archiveStore ?S ''b''" by simp
  with r inv c s show ?thesis by simp
qed

text \<open>
  C10. \<^verbatim>\<open>has(key)\<close> returns a boolean and leaves the state (the map with every entry and
  timestamp, and the order array) exactly as it was, expired entry or not; so a sequence of
  calls that starts with a \<^verbatim>\<open>has\<close> ends in the same state as the sequence without it.
\<close>

theorem has_no_side_effect:
  "ARCHIVE_CACHE older cap ttl (Has key) st = Some (Bool (has key st), st) \<and>
   run older cap ttl (Has key # calls) st = run older cap ttl calls st \<and>
   run older cap ttl (calls @ [Has key]) st = run older cap ttl calls st"
  by (simp add: run_append split: option.splits)

theorem has_no_side_effect_witness:
  "ARCHIVE_CACHE (\<lambda>v n l. False) ARCHIVE_CACHE_MAX_SIZE ARCHIVE_CACHE_TTL (Has ''k'')
       \<lparr>archiveStore = [''k'' \<mapsto> [''timestamp'' \<mapsto> JNum 0 :: string jsval]], archiveOrder = [''k'']\<rparr>
     = Some (Bool True,
        \<lparr>archiveStore = [''k'' \<mapsto> [''timestamp'' \<mapsto> JNum 0 :: string jsval]], archiveOrder = [''k'']\<rparr>) \<and>
   run (\<lambda>v n l. False) ARCHIVE_CACHE_MAX_SIZE ARCHIVE_CACHE_TTL [Has ''k'', Get 1800001 ''k'']
       \<lparr>archiveStore = [''k'' \<mapsto> [''timestamp'' \<mapsto> JNum 0 :: string jsval]], archiveOrder = [''k'']\<rparr>
     = run (\<lambda>v n l. False) ARCHIVE_CACHE_MAX_SIZE ARCHIVE_CACHE_TTL [Get 1800001 ''k'']
       \<lparr>archiveStore = [''k'' \<mapsto> [''timestamp'' \<mapsto> JNum 0 :: string jsval]], archiveOrder = [''k'']\<rparr>"
proof -
  let ?S = "\<lparr>archiveStore = [''k'' \<mapsto> [''timestamp'' \<mapsto> JNum 0 :: string jsval]], archiveOrder = [''k'']\<rparr>"
  have h: "has ''k'' ?S = True" by (simp add: has_def)
  from has_no_side_effect[of "\<lambda>v n l. False" ARCHIVE_CACHE_MAX_SIZE ARCHIVE_CACHE_TTL "''k''" ?S "[Get 1800001 ''k'']"]
  show ?thesis unfolding h by blast
qed

end
